theory Spec2Isabelle
  imports Main
begin

section \<open>The Othello engine of tools/generate\_othello\_games.py\<close>

text \<open>
  A shallow embedding of the class \<open>OthelloBoard\<close> and of \<open>generate_game\<close>.
  Python lists are HOL lists read and written through \<open>getitem\<close> and \<open>setitem\<close>, which
  keep Python's index rule (a negative index counts from the end, anything else out of
  range raises \<open>IndexError\<close>). A raised exception is the left injection of a sum; a
  method that mutates \<open>self\<close> returns the new object next to its result.
\<close>

subsection \<open>Data\<close>

text \<open>The class constants \<open>EMPTY = 0\<close>, \<open>BLACK = 1\<close>, \<open>WHITE = 2\<close>.\<close>

datatype cell = EMPTY | BLACK | WHITE

datatype error = IndexError | ValueError

text \<open>
  The constant table \<open>DIRECTIONS\<close>: eight offset pairs \<open>(dr, dc)\<close>, kept in the order
  of the source. Each entry is named by its compass point; \<open>dr\<close> and \<open>dc\<close> give its
  two components.
\<close>

datatype direction = NW | N | NE | W | E | SW | S | SE

fun dr :: "direction \<Rightarrow> int" where
  "dr NW = -1" | "dr N = -1" | "dr NE = -1"
| "dr W = 0" | "dr E = 0"
| "dr SW = 1" | "dr S = 1" | "dr SE = 1"

fun dc :: "direction \<Rightarrow> int" where
  "dc NW = -1" | "dc N = 0" | "dc NE = 1"
| "dc W = -1" | "dc E = 1"
| "dc SW = -1" | "dc S = 0" | "dc SE = 1"

definition DIRECTIONS :: "direction list" where
  "DIRECTIONS = [NW, N, NE, W, E, SW, S, SE]"

definition SIZE :: int where
  "SIZE = 8"

record othello_board =
  board :: "cell list list"
  current_player :: cell
  moves :: "string list"

subsection \<open>Python list access\<close>

definition getitem :: "'a list \<Rightarrow> int \<Rightarrow> error + 'a" where
  "getitem xs i =
     (let n = int (length xs); j = (if i < 0 then i + n else i)
      in if 0 \<le> j \<and> j < n then Inr (xs ! nat j) else Inl IndexError)"

definition setitem :: "'a list \<Rightarrow> int \<Rightarrow> 'a \<Rightarrow> error + 'a list" where
  "setitem xs i v =
     (let n = int (length xs); j = (if i < 0 then i + n else i)
      in if 0 \<le> j \<and> j < n then Inr (xs[nat j := v]) else Inl IndexError)"

text \<open>\<open>self.board[r][c]\<close> and \<open>self.board[r][c] = v\<close>. The rows are eight separate list
  objects, so writing into one row leaves the others as they are.\<close>

definition cell_at :: "cell list list \<Rightarrow> int \<Rightarrow> int \<Rightarrow> error + cell" where
  "cell_at b r c = (case getitem b r of Inl e \<Rightarrow> Inl e | Inr line \<Rightarrow> getitem line c)"

definition set_cell :: "cell list list \<Rightarrow> int \<Rightarrow> int \<Rightarrow> cell \<Rightarrow> error + cell list list" where
  "set_cell b r c v =
     (case getitem b r of
        Inl e \<Rightarrow> Inl e
      | Inr line \<Rightarrow>
          (case setitem line c v of
             Inl e \<Rightarrow> Inl e
           | Inr line' \<Rightarrow> setitem b r line'))"

text \<open>The guard \<open>0 <= r < self.SIZE and 0 <= c < self.SIZE\<close>.\<close>

definition on_board :: "int \<Rightarrow> int \<Rightarrow> bool" where
  "on_board r c = (0 \<le> r \<and> r < SIZE \<and> 0 \<le> c \<and> c < SIZE)"

text \<open>\<open>self.WHITE if self.current_player == self.BLACK else self.BLACK\<close>.\<close>

definition other_player :: "cell \<Rightarrow> cell" where
  "other_player p = (if p = BLACK then WHITE else BLACK)"

subsection \<open>\<open>__init__\<close>\<close>

definition empty_grid :: "cell list list" where
  "empty_grid = replicate (nat SIZE) (replicate (nat SIZE) EMPTY)"

definition place :: "nat \<Rightarrow> nat \<Rightarrow> cell \<Rightarrow> cell list list \<Rightarrow> cell list list" where
  "place r c v b = b[r := (b ! r)[c := v]]"

definition new_board :: othello_board where
  "new_board =
     \<lparr> board = place 4 4 WHITE (place 4 3 BLACK (place 3 4 BLACK (place 3 3 WHITE empty_grid))),
       current_player = BLACK,
       moves = [] \<rparr>"

subsection \<open>\<open>is_valid_move\<close>\<close>

text \<open>Steps left before a walk from \<open>(r, c)\<close> in direction \<open>d\<close> leaves the board.\<close>

definition steps_left :: "direction \<Rightarrow> int \<Rightarrow> int \<Rightarrow> nat" where
  "steps_left d r c =
     (if dr d = 1 then nat (SIZE - r)
      else if dr d = -1 then nat (r + 1)
      else if dc d = 1 then nat (SIZE - c)
      else nat (c + 1))"

text \<open>The inner \<open>while\<close> of \<open>is_valid_move\<close> (lines 78 to 87): \<open>Inr True\<close> is the
  \<open>return True\<close>, \<open>Inr False\<close> the \<open>break\<close> or the exit through the loop condition.\<close>

function walk_to_own :: "cell list list \<Rightarrow> cell \<Rightarrow> direction \<Rightarrow> int \<Rightarrow> int \<Rightarrow> error + bool" where
  "walk_to_own b p d r c =
     (if on_board r c then
        (case cell_at b r c of
           Inl e \<Rightarrow> Inl e
         | Inr v \<Rightarrow>
             if v = EMPTY then Inr False
             else if v = p then Inr True
             else walk_to_own b p d (r + dr d) (c + dc d))
      else Inr False)"
  by pat_completeness auto
termination
proof (relation "measure (\<lambda>(b, p, d, r, c). steps_left d r c)")
  fix b :: "cell list list" and p v :: cell and d :: direction and r c :: int
  assume "on_board r c"
  then show "((b, p, d, r + dr d, c + dc d), (b, p, d, r, c))
      \<in> measure (\<lambda>(b, p, d, r, c). steps_left d r c)"
    by (cases d) (simp_all add: steps_left_def on_board_def SIZE_def)
qed simp

declare walk_to_own.simps [simp del]

text \<open>The \<open>for dr, dc in self.DIRECTIONS\<close> loop of \<open>is_valid_move\<close>.\<close>

fun try_directions :: "cell list list \<Rightarrow> cell \<Rightarrow> cell \<Rightarrow> int \<Rightarrow> int \<Rightarrow> direction list \<Rightarrow> error + bool" where
  "try_directions b p opponent row col [] = Inr False"
| "try_directions b p opponent row col (d # ds) =
     (let r = row + dr d; c = col + dc d in
      if on_board r c then
        (case cell_at b r c of
           Inl e \<Rightarrow> Inl e
         | Inr v \<Rightarrow>
             if v = opponent then
               (case walk_to_own b p d (r + dr d) (c + dc d) of
                  Inl e \<Rightarrow> Inl e
                | Inr found \<Rightarrow>
                    if found then Inr True
                    else try_directions b p opponent row col ds)
             else try_directions b p opponent row col ds)
      else try_directions b p opponent row col ds)"

definition is_valid_move :: "othello_board \<Rightarrow> int \<Rightarrow> int \<Rightarrow> error + bool" where
  "is_valid_move s row col =
     (case cell_at (board s) row col of
        Inl e \<Rightarrow> Inl e
      | Inr v \<Rightarrow>
          if v \<noteq> EMPTY then Inr False
          else try_directions (board s) (current_player s)
                 (other_player (current_player s)) row col DIRECTIONS)"

subsection \<open>\<open>get_valid_moves\<close>, \<open>has_valid_moves\<close>, \<open>switch_player\<close>, \<open>is_game_over\<close>\<close>

text \<open>\<open>range(self.SIZE)\<close>, and the cells in the order the two nested \<open>for\<close> statements visit them.\<close>

definition range_SIZE :: "int list" where
  "range_SIZE = map int [0 ..< nat SIZE]"

definition all_cells :: "(int \<times> int) list" where
  "all_cells = concat (map (\<lambda>row. map (\<lambda>col. (row, col)) range_SIZE) range_SIZE)"

fun valid_among :: "othello_board \<Rightarrow> (int \<times> int) list \<Rightarrow> (int \<times> int) list \<Rightarrow> error + (int \<times> int) list" where
  "valid_among s [] valid_moves = Inr valid_moves"
| "valid_among s ((row, col) # rest) valid_moves =
     (case is_valid_move s row col of
        Inl e \<Rightarrow> Inl e
      | Inr ok \<Rightarrow> valid_among s rest (if ok then valid_moves @ [(row, col)] else valid_moves))"

definition get_valid_moves :: "othello_board \<Rightarrow> error + (int \<times> int) list" where
  "get_valid_moves s = valid_among s all_cells []"

definition has_valid_moves :: "othello_board \<Rightarrow> error + bool" where
  "has_valid_moves s =
     (case get_valid_moves s of Inl e \<Rightarrow> Inl e | Inr vs \<Rightarrow> Inr (length vs > 0))"

definition switch_player :: "othello_board \<Rightarrow> othello_board" where
  "switch_player s = s\<lparr>current_player := other_player (current_player s)\<rparr>"

definition is_game_over :: "othello_board \<Rightarrow> error + (bool \<times> othello_board)" where
  "is_game_over s =
     (case has_valid_moves s of
        Inl e \<Rightarrow> Inl e
      | Inr mine \<Rightarrow>
          if mine then Inr (False, s)
          else
            (let s1 = switch_player s in
             case has_valid_moves s1 of
               Inl e \<Rightarrow> Inl e
             | Inr has_moves \<Rightarrow> Inr (\<not> has_moves, switch_player s1)))"

subsection \<open>Notation\<close>

text \<open>
  \<open>chr\<close>, \<open>ord\<close>, \<open>str\<close> and \<open>int\<close> on the characters HOL's 8-bit \<open>char\<close> holds (code
  points below 256). Python's \<open>chr\<close> raises \<open>ValueError\<close> outside \<open>range(0x110000)\<close>;
  a code point from 256 on has no \<open>char\<close> and is reported as the same error here.
  \<open>make_move\<close> reaches \<open>chr\<close> only with \<open>97 + col\<close> between 89 and 104. Among the
  single characters below 256, \<open>int\<close> accepts exactly the ten digits.
\<close>

definition py_chr :: "int \<Rightarrow> error + char" where
  "py_chr n = (if 0 \<le> n \<and> n < 256 then Inr (char_of n) else Inl ValueError)"

definition py_ord :: "char \<Rightarrow> int" where
  "py_ord ch = of_char ch"

fun digits10 :: "nat \<Rightarrow> string" where
  "digits10 n =
     (if n < 10 then [char_of (48 + n)]
      else digits10 (n div 10) @ [char_of (48 + n mod 10)])"

declare digits10.simps [simp del]

definition py_str :: "int \<Rightarrow> string" where
  "py_str i = (if i < 0 then CHR ''-'' # digits10 (nat (- i)) else digits10 (nat i))"

definition py_int :: "char \<Rightarrow> error + int" where
  "py_int ch =
     (if 48 \<le> py_ord ch \<and> py_ord ch \<le> 57 then Inr (py_ord ch - 48) else Inl ValueError)"

definition coords_to_notation :: "int \<Rightarrow> int \<Rightarrow> error + string" where
  "coords_to_notation row col =
     (case py_chr (97 + col) of Inl e \<Rightarrow> Inl e | Inr ch \<Rightarrow> Inr (ch # py_str (row + 1)))"

definition notation_to_coords :: "string \<Rightarrow> error + (int \<times> int)" where
  "notation_to_coords notation =
     (case getitem notation 0 of
        Inl e \<Rightarrow> Inl e
      | Inr ch0 \<Rightarrow>
          (let col = py_ord ch0 - 97 in
           case getitem notation 1 of
             Inl e \<Rightarrow> Inl e
           | Inr ch1 \<Rightarrow>
               (case py_int ch1 of
                  Inl e \<Rightarrow> Inl e
                | Inr v \<Rightarrow> Inr (v - 1, col))))"

subsection \<open>\<open>make_move\<close>\<close>

text \<open>The \<open>while\<close> of \<open>make_move\<close> (lines 108 to 121), from its loop condition: the
  result is \<open>to_flip\<close> as the loop leaves it.\<close>

function gather_flips ::
  "cell list list \<Rightarrow> cell \<Rightarrow> cell \<Rightarrow> direction \<Rightarrow> int \<Rightarrow> int \<Rightarrow> (int \<times> int) list
    \<Rightarrow> error + (int \<times> int) list" where
  "gather_flips b p opponent d r c to_flip =
     (if on_board r c then
        (case cell_at b r c of
           Inl e \<Rightarrow> Inl e
         | Inr v \<Rightarrow>
             if v = opponent then
               (let to_flip' = to_flip @ [(r, c)]; r' = r + dr d; c' = c + dc d in
                if \<not> on_board r' c' then Inr []
                else
                  (case cell_at b r' c' of
                     Inl e \<Rightarrow> Inl e
                   | Inr w \<Rightarrow>
                       if w = EMPTY then Inr []
                       else if w = p then Inr to_flip'
                       else gather_flips b p opponent d r' c' to_flip'))
             else Inr to_flip)
      else Inr to_flip)"
  by pat_completeness auto
termination
proof (relation "measure (\<lambda>(b, p, opponent, d, r, c, to_flip). steps_left d r c)")
  fix d :: direction and r c :: int
  assume "on_board r c"
  then have "steps_left d (r + dr d) (c + dc d) < steps_left d r c"
    by (cases d) (simp_all add: steps_left_def on_board_def SIZE_def)
  then show "\<And>b p opponent to_flip x xa xb.
      xa = r + dr d \<Longrightarrow> xb = c + dc d \<Longrightarrow>
      ((b, p, opponent, d, xa, xb, x), (b, p, opponent, d, r, c, to_flip))
        \<in> measure (\<lambda>(b, p, opponent, d, r, c, to_flip). steps_left d r c)"
    by simp
qed simp

declare gather_flips.simps [simp del]

text \<open>\<open>for flip_r, flip_c in to_flip: self.board[flip_r][flip_c] = self.current_player\<close>.\<close>

fun flip_cells :: "cell list list \<Rightarrow> cell \<Rightarrow> (int \<times> int) list \<Rightarrow> error + cell list list" where
  "flip_cells b p [] = Inr b"
| "flip_cells b p ((flip_r, flip_c) # rest) =
     (case set_cell b flip_r flip_c p of
        Inl e \<Rightarrow> Inl e
      | Inr b' \<Rightarrow> flip_cells b' p rest)"

text \<open>The \<open>for dr, dc in self.DIRECTIONS\<close> loop of \<open>make_move\<close>: each direction reads
  the board the directions before it have written.\<close>

fun flip_directions ::
  "cell list list \<Rightarrow> cell \<Rightarrow> cell \<Rightarrow> int \<Rightarrow> int \<Rightarrow> direction list \<Rightarrow> error + cell list list" where
  "flip_directions b p opponent row col [] = Inr b"
| "flip_directions b p opponent row col (d # ds) =
     (case gather_flips b p opponent d (row + dr d) (col + dc d) [] of
        Inl e \<Rightarrow> Inl e
      | Inr to_flip \<Rightarrow>
          (case flip_cells b p to_flip of
             Inl e \<Rightarrow> Inl e
           | Inr b' \<Rightarrow> flip_directions b' p opponent row col ds))"

definition make_move :: "othello_board \<Rightarrow> int \<Rightarrow> int \<Rightarrow> error + (bool \<times> othello_board)" where
  "make_move s row col =
     (case is_valid_move s row col of
        Inl e \<Rightarrow> Inl e
      | Inr ok \<Rightarrow>
          if \<not> ok then Inr (False, s)
          else
            (case set_cell (board s) row col (current_player s) of
               Inl e \<Rightarrow> Inl e
             | Inr b1 \<Rightarrow>
                 (case flip_directions b1 (current_player s)
                         (other_player (current_player s)) row col DIRECTIONS of
                    Inl e \<Rightarrow> Inl e
                  | Inr b2 \<Rightarrow>
                      (case coords_to_notation row col of
                         Inl e \<Rightarrow> Inl e
                       | Inr move_notation \<Rightarrow>
                           Inr (True,
                             s\<lparr>board := b2,
                               moves := moves s @ [move_notation],
                               current_player := other_player (current_player s)\<rparr>)))))"

subsection \<open>\<open>generate_game\<close>\<close>

text \<open>
  The random source is a sequence \<open>rnd\<close> of natural numbers and the number \<open>i\<close> of
  draws made so far: \<open>random.choice(valid_moves)\<close> is the element of \<open>valid_moves\<close> at
  index \<open>rnd i mod len(valid_moves)\<close>, so every element can be chosen, and a pass draws
  nothing. \<open>ply\<close> is the body of the \<open>while\<close> loop (lines 177 to 186); \<open>game_loop\<close>
  is the loop, where not returning is \<open>None\<close>.
\<close>

definition ply :: "(nat \<Rightarrow> nat) \<Rightarrow> nat \<Rightarrow> othello_board \<Rightarrow> error + (nat \<times> othello_board)" where
  "ply rnd i s =
     (case get_valid_moves s of
        Inl e \<Rightarrow> Inl e
      | Inr valid_moves \<Rightarrow>
          if valid_moves = [] then Inr (i, switch_player s)
          else
            (case valid_moves ! (rnd i mod length valid_moves) of
               (row, col) \<Rightarrow>
                 (case make_move s row col of
                    Inl e \<Rightarrow> Inl e
                  | Inr (ok, s') \<Rightarrow> Inr (Suc i, s'))))"

partial_function (option) game_loop ::
  "(nat \<Rightarrow> nat) \<Rightarrow> nat \<Rightarrow> othello_board \<Rightarrow> (error + othello_board) option" where
  "game_loop rnd i s =
     (case is_game_over s of
        Inl e \<Rightarrow> Some (Inl e)
      | Inr (over, s0) \<Rightarrow>
          if over then Some (Inr s0)
          else
            (case ply rnd i s0 of
               Inl e \<Rightarrow> Some (Inl e)
             | Inr (i', s') \<Rightarrow> game_loop rnd i' s'))"

declare game_loop.simps [code]

definition generate_game :: "(nat \<Rightarrow> nat) \<Rightarrow> (error + string list) option" where
  "generate_game rnd =
     (case game_loop rnd 0 new_board of
        None \<Rightarrow> None
      | Some (Inl e) \<Rightarrow> Some (Inl e)
      | Some (Inr s) \<Rightarrow> Some (Inr (moves s)))"

subsection \<open>Vocabulary of the specification\<close>

text \<open>A notation token: a column letter \<open>a\<close> to \<open>h\<close>, then a row digit \<open>1\<close> to \<open>8\<close>.\<close>

definition well_formed_token :: "string \<Rightarrow> bool" where
  "well_formed_token t =
     (case t of
        [l, d] \<Rightarrow> l \<in> set ''abcdefgh'' \<and> d \<in> set ''12345678''
      | _ \<Rightarrow> False)"

text \<open>A board as \<open>__init__\<close> shapes it, eight rows of eight cells, and a state whose
  player to move is one of the two colours.\<close>

definition grid_ok :: "cell list list \<Rightarrow> bool" where
  "grid_ok b = (length b = nat SIZE \<and> list_all (\<lambda>line. length line = nat SIZE) b)"

definition state_ok :: "othello_board \<Rightarrow> bool" where
  "state_ok s = (grid_ok (board s) \<and> current_player s \<noteq> EMPTY)"

text \<open>The cell at an on-board coordinate.\<close>

definition peek :: "cell list list \<Rightarrow> int \<Rightarrow> int \<Rightarrow> cell" where
  "peek b r c = b ! nat r ! nat c"

text \<open>
  The capture rule in the words of the specification: direction \<open>d\<close> captures for player
  \<open>p\<close> at \<open>(row, col)\<close> when the \<open>k \<ge> 1\<close> cells next to \<open>(row, col)\<close> in that
  direction are on the board and hold the opponent's colour, and the cell right after
  them is on the board and holds \<open>p\<close>.
\<close>

definition captures :: "cell list list \<Rightarrow> cell \<Rightarrow> int \<Rightarrow> int \<Rightarrow> direction \<Rightarrow> bool" where
  "captures b p row col d =
     (\<exists>k\<ge>1.
        (\<forall>j\<in>{1..k}. on_board (row + int j * dr d) (col + int j * dc d)
                    \<and> peek b (row + int j * dr d) (col + int j * dc d) = other_player p)
        \<and> on_board (row + (int k + 1) * dr d) (col + (int k + 1) * dc d)
        \<and> peek b (row + (int k + 1) * dr d) (col + (int k + 1) * dc d) = p)"

text \<open>The same run counted from its first cell \<open>(r, c)\<close>: \<open>n\<close> opponent cells, then
  one of \<open>p\<close>.\<close>

fun run_to_own :: "cell list list \<Rightarrow> cell \<Rightarrow> direction \<Rightarrow> int \<Rightarrow> int \<Rightarrow> nat \<Rightarrow> bool" where
  "run_to_own b p d r c 0 = (on_board r c \<and> peek b r c = p)"
| "run_to_own b p d r c (Suc n) =
     (on_board r c \<and> peek b r c = other_player p \<and> run_to_own b p d (r + dr d) (c + dc d) n)"

text \<open>
  Replaying a recorded token list, in the words of the specification: before each token
  the player to move is switched when \<open>has_valid_moves\<close> says it cannot move (the pass
  that the list does not record), then the token is decoded and applied by \<open>make_move\<close>.
\<close>

fun replay :: "othello_board \<Rightarrow> string list \<Rightarrow> error + othello_board" where
  "replay s [] = Inr s"
| "replay s (t # ts) =
     (case has_valid_moves s of
        Inl e \<Rightarrow> Inl e
      | Inr can_move \<Rightarrow>
          (let s1 = (if can_move then s else switch_player s) in
           case notation_to_coords t of
             Inl e \<Rightarrow> Inl e
           | Inr (row, col) \<Rightarrow>
               (case make_move s1 row col of
                  Inl e \<Rightarrow> Inl e
                | Inr (ok, s2) \<Rightarrow> replay s2 ts)))"

text \<open>Two positions of one game, after its twelfth and after its sixteenth move.\<close>

definition edge_position :: othello_board where
  "edge_position =
     \<lparr> board =
         [[EMPTY, EMPTY, EMPTY, EMPTY, EMPTY, EMPTY, EMPTY, EMPTY],
          [EMPTY, BLACK, EMPTY, EMPTY, BLACK, EMPTY, EMPTY, EMPTY],
          [WHITE, BLACK, WHITE, WHITE, WHITE, EMPTY, EMPTY, EMPTY],
          [WHITE, WHITE, WHITE, WHITE, WHITE, EMPTY, EMPTY, EMPTY],
          [EMPTY, BLACK, WHITE, WHITE, WHITE, EMPTY, EMPTY, EMPTY],
          [EMPTY, EMPTY, EMPTY, EMPTY, EMPTY, EMPTY, EMPTY, EMPTY],
          [EMPTY, EMPTY, EMPTY, EMPTY, EMPTY, EMPTY, EMPTY, EMPTY],
          [EMPTY, EMPTY, EMPTY, EMPTY, EMPTY, EMPTY, EMPTY, EMPTY]],
       current_player = BLACK,
       moves = [''d3'', ''c3'', ''c4'', ''e3'', ''e2'', ''b4'', ''b5'', ''c5'',
                ''b3'', ''a3'', ''b2'', ''a4''] \<rparr>"

definition pass_position :: othello_board where
  "pass_position =
     \<lparr> board =
         [[EMPTY, EMPTY, EMPTY, WHITE, EMPTY, EMPTY, EMPTY, EMPTY],
          [EMPTY, BLACK, WHITE, WHITE, BLACK, EMPTY, EMPTY, EMPTY],
          [WHITE, WHITE, WHITE, WHITE, WHITE, EMPTY, EMPTY, EMPTY],
          [WHITE, WHITE, WHITE, WHITE, WHITE, EMPTY, EMPTY, EMPTY],
          [EMPTY, BLACK, WHITE, WHITE, BLACK, EMPTY, EMPTY, EMPTY],
          [EMPTY, EMPTY, EMPTY, EMPTY, EMPTY, BLACK, EMPTY, EMPTY],
          [EMPTY, EMPTY, EMPTY, EMPTY, EMPTY, EMPTY, EMPTY, EMPTY],
          [EMPTY, EMPTY, EMPTY, EMPTY, EMPTY, EMPTY, EMPTY, EMPTY]],
       current_player = BLACK,
       moves = [''d3'', ''c3'', ''c4'', ''e3'', ''e2'', ''b4'', ''b5'', ''c5'',
                ''b3'', ''a3'', ''b2'', ''a4'', ''f6'', ''c2'', ''d2'', ''d1''] \<rparr>"

text \<open>The number of occupied (non-\<open>EMPTY\<close>) cells.\<close>

definition occupied :: "cell list list \<Rightarrow> nat" where
  "occupied b = sum_list (map (\<lambda>line. length (filter (\<lambda>v. v \<noteq> EMPTY) line)) b)"

text \<open>
  \<open>recoloured b0 p b\<close>: board \<open>b\<close> is \<open>b0\<close> but for cells that held the colour of \<open>p\<close>'s
  opponent in \<open>b0\<close> and hold \<open>p\<close> in \<open>b\<close>; the number of occupied cells is the same.
\<close>

definition recoloured :: "cell list list \<Rightarrow> cell \<Rightarrow> cell list list \<Rightarrow> bool" where
  "recoloured b0 p b =
     (grid_ok b \<and> occupied b = occupied b0
      \<and> (\<forall>r c. on_board r c \<and> peek b r c \<noteq> peek b0 r c
             \<longrightarrow> peek b0 r c = other_player p \<and> peek b r c = p))"

text \<open>
  A bound on the plies \<open>generate_game\<close> still has to play from a state: two for every
  empty cell, one more when the player to move has to pass.
\<close>

definition plies_left :: "othello_board \<Rightarrow> nat" where
  "plies_left s = 2 * (64 - occupied (board s)) + (if get_valid_moves s = Inr [] then 1 else 0)"

text \<open>The random source that always draws 0.\<close>

definition always_first :: "nat \<Rightarrow> nat" where
  "always_first i = 0"

section \<open>Properties\<close>

subsection \<open>Notation\<close>

lemma digits10_small: "n < 10 \<Longrightarrow> digits10 n = [char_of (48 + n)]"
  by (subst digits10.simps) simp

lemma py_ord_char_of_int: "0 \<le> n \<Longrightarrow> n < 256 \<Longrightarrow> py_ord (char_of (n::int)) = n"
  by (simp add: py_ord_def)

lemma py_ord_char_of_nat: "n < 256 \<Longrightarrow> py_ord (char_of (n::nat)) = int n"
proof -
  assume "n < 256"
  have "py_ord (char_of n) = int ((of_char (char_of n)) :: nat)"
    unfolding py_ord_def by (simp only: of_nat_of_char)
  also have "\<dots> = int (n mod 256)" by (simp only: of_char_of)
  finally show ?thesis using \<open>n < 256\<close> by simp
qed

lemma encode_on_board:
  assumes "on_board row col"
  shows "coords_to_notation row col = Inr [char_of (97 + col), char_of (48 + nat (row + 1))]"
proof -
  have "nat (row + 1) < 10" "0 \<le> 97 + col" "97 + col < 256" "\<not> row + 1 < 0"
    using assms by (auto simp: on_board_def SIZE_def)
  then show ?thesis
    by (simp add: coords_to_notation_def py_chr_def py_str_def digits10_small)
qed

lemma decode_pair:
  "notation_to_coords [a, b] =
     (case py_int b of Inl e \<Rightarrow> Inl e | Inr v \<Rightarrow> Inr (v - 1, py_ord a - 97))"
  by (simp add: notation_to_coords_def getitem_def)

lemma decode_encode:
  assumes "on_board row col"
  shows "\<exists>t. coords_to_notation row col = Inr t \<and> notation_to_coords t = Inr (row, col)"
proof -
  have a: "py_ord (char_of (97 + col)) = 97 + col"
    using assms by (intro py_ord_char_of_int) (simp_all add: on_board_def SIZE_def)
  have "48 + nat (row + 1) < 256"
    using assms by (auto simp: on_board_def SIZE_def)
  then have "py_ord (char_of (48 + nat (row + 1))) = int (48 + nat (row + 1))"
    by (rule py_ord_char_of_nat)
  then have b: "py_int (char_of (48 + nat (row + 1))) = Inr (row + 1)"
    using assms by (simp add: py_int_def on_board_def SIZE_def)
  show ?thesis
    by (simp add: encode_on_board [OF assms] decode_pair a b)
qed

lemma encode_decode:
  assumes "well_formed_token t"
  shows "\<exists>row col. notation_to_coords t = Inr (row, col) \<and> coords_to_notation row col = Inr t"
proof -
  from assms obtain l d
    where t: "t = [l, d]" and l: "l \<in> set ''abcdefgh''" and d: "d \<in> set ''12345678''"
    by (auto simp: well_formed_token_def split: list.splits)
  from d have pd: "py_int d = Inr (py_ord d - 48) \<and> 49 \<le> py_ord d \<and> py_ord d \<le> 56"
    by (auto simp: py_int_def py_ord_def)
  from l have pl: "97 \<le> py_ord l \<and> py_ord l \<le> 104"
    by (auto simp: py_ord_def)
  have dec: "notation_to_coords t = Inr (py_ord d - 49, py_ord l - 97)"
    by (simp add: t decode_pair pd)
  have ob: "on_board (py_ord d - 49) (py_ord l - 97)"
    using pd pl by (simp add: on_board_def SIZE_def)
  have "48 + nat (py_ord d - 48) = nat (py_ord d)"
    using pd by arith
  then have "char_of (48 + nat (py_ord d - 48)) = d"
    by (simp add: py_ord_def)
  moreover have "char_of (py_ord l) = l"
    by (simp add: py_ord_def)
  ultimately have "coords_to_notation (py_ord d - 49) (py_ord l - 97) = Inr t"
    by (simp add: encode_on_board [OF ob] t)
  with dec show ?thesis by blast
qed

text \<open>
  Claim C7, the notation round trip. For every \<open>(row, col)\<close> with both coordinates in
  \<open>[0, 8)\<close>, \<open>coords_to_notation\<close> returns a token and \<open>notation_to_coords\<close> of that token
  is \<open>(row, col)\<close> again; and for every well-formed token \<open>t\<close> (a letter \<open>a\<close> to \<open>h\<close>
  followed by a digit \<open>1\<close> to \<open>8\<close>), \<open>notation_to_coords t\<close> returns coordinates whose
  encoding is \<open>t\<close>. Neither call raises.
\<close>

theorem notation_round_trip:
  "(on_board row col \<longrightarrow>
      (\<exists>t. coords_to_notation row col = Inr t \<and> notation_to_coords t = Inr (row, col)))
   \<and> (well_formed_token t \<longrightarrow>
      (\<exists>r c. notation_to_coords t = Inr (r, c) \<and> coords_to_notation r c = Inr t))"
  using decode_encode encode_decode by blast

theorem notation_round_trip_witness:
  "on_board 2 3 \<and> well_formed_token ''d3''
   \<and> (\<exists>t. coords_to_notation 2 3 = Inr t \<and> notation_to_coords t = Inr (2, 3))
   \<and> (\<exists>r c. notation_to_coords ''d3'' = Inr (r, c) \<and> coords_to_notation r c = Inr ''d3'')"
proof -
  have h1: "on_board 2 3"
    by (simp add: on_board_def SIZE_def)
  have h2: "well_formed_token ''d3''"
    by (simp add: well_formed_token_def)
  show ?thesis
    using notation_round_trip [of 2 3 "''d3''"] h1 h2 by blast
qed

subsection \<open>The opening position\<close>

text \<open>
  Claim C6. On a freshly constructed board, with Black to move, \<open>get_valid_moves\<close> returns
  exactly the four coordinates \<open>(2,3)\<close>, \<open>(3,2)\<close>, \<open>(4,5)\<close>, \<open>(5,4)\<close>, in this order, and
  \<open>coords_to_notation\<close> encodes them as \<open>d3\<close>, \<open>c4\<close>, \<open>f5\<close>, \<open>e6\<close>.
\<close>

theorem opening_moves:
  "current_player new_board = BLACK
   \<and> get_valid_moves new_board = Inr [(2, 3), (3, 2), (4, 5), (5, 4)]
   \<and> coords_to_notation 2 3 = Inr ''d3'' \<and> coords_to_notation 3 2 = Inr ''c4''
   \<and> coords_to_notation 4 5 = Inr ''f5'' \<and> coords_to_notation 5 4 = Inr ''e6''"
  by code_simp

subsection \<open>Reading a well-shaped board\<close>

lemma grid_ok_row: "grid_ok b \<Longrightarrow> i < 8 \<Longrightarrow> length (b ! i) = 8"
  by (simp add: grid_ok_def SIZE_def list_all_length)

lemma grid_ok_length: "grid_ok b \<Longrightarrow> length b = 8"
  by (simp add: grid_ok_def SIZE_def)

lemma getitem_in_range: "0 \<le> i \<Longrightarrow> i < int (length xs) \<Longrightarrow> getitem xs i = Inr (xs ! nat i)"
  by (simp add: getitem_def)

lemma getitem_negative:
  "i < 0 \<Longrightarrow> - int (length xs) \<le> i \<Longrightarrow> getitem xs i = Inr (xs ! nat (i + int (length xs)))"
  by (simp add: getitem_def)

lemma cell_at_on_board:
  assumes "grid_ok b" "on_board r c"
  shows "cell_at b r c = Inr (peek b r c)"
proof -
  have r: "0 \<le> r" "r < 8" and c: "0 \<le> c" "c < 8"
    using assms(2) by (simp_all add: on_board_def SIZE_def)
  have "nat r < 8" using r by arith
  then have "length (b ! nat r) = 8" by (rule grid_ok_row [OF assms(1)])
  then show ?thesis
    using r c by (simp add: cell_at_def getitem_in_range grid_ok_length [OF assms(1)] peek_def)
qed

lemma getitem_wrapped:
  assumes "length xs = 8" "- 8 \<le> i" "i < 8"
  shows "getitem xs i = Inr (xs ! nat (i mod 8))"
proof (cases "i < 0")
  case True
  then have "i mod 8 = i + 8"
    using assms(2) by (smt (verit) mod_add_self2 mod_pos_pos_trivial)
  then show ?thesis
    using True assms by (simp add: getitem_negative)
next
  case False
  then show ?thesis
    using assms by (simp add: getitem_in_range)
qed

lemma cell_at_wrapped:
  assumes "grid_ok b" "- SIZE \<le> r" "r < SIZE" "- SIZE \<le> c" "c < SIZE"
  shows "cell_at b r c = Inr (peek b (r mod SIZE) (c mod SIZE))"
proof -
  have gr: "getitem b r = Inr (b ! nat (r mod 8))"
    using assms by (intro getitem_wrapped) (simp_all add: grid_ok_length SIZE_def)
  have "nat (r mod 8) < 8" by simp
  then have len: "length (b ! nat (r mod 8)) = 8"
    by (rule grid_ok_row [OF assms(1)])
  have gc: "getitem (b ! nat (r mod 8)) c = Inr (b ! nat (r mod 8) ! nat (c mod 8))"
    using assms len by (intro getitem_wrapped) (simp_all add: SIZE_def)
  show ?thesis
    by (simp add: cell_at_def gr gc peek_def SIZE_def)
qed

subsection \<open>Legality is the capture rule\<close>

lemma not_own_not_empty: "p \<noteq> EMPTY \<Longrightarrow> v \<noteq> EMPTY \<Longrightarrow> v \<noteq> p \<Longrightarrow> v = other_player p"
  by (cases p; cases v) (simp_all add: other_player_def)

lemma other_player_neq: "p \<noteq> EMPTY \<Longrightarrow> other_player p \<noteq> p"
  by (simp add: other_player_def)

lemma other_player_not_empty: "other_player p \<noteq> EMPTY"
  by (simp add: other_player_def)

lemma run_to_own_first: "run_to_own b p d r c n \<Longrightarrow> on_board r c"
  by (cases n) simp_all

lemma walk_to_own_run:
  assumes "grid_ok b" "p \<noteq> EMPTY"
  shows "walk_to_own b p d r c = Inr (\<exists>n. run_to_own b p d r c n)"
  using assms
proof (induction b p d r c rule: walk_to_own.induct)
  case (1 b p d r c)
  show ?case
  proof (cases "on_board r c")
    case False
    then have "\<not> (\<exists>n. run_to_own b p d r c n)"
      using run_to_own_first by blast
    with False show ?thesis
      by (subst walk_to_own.simps) simp
  next
    case True
    note cell = cell_at_on_board [OF "1.prems"(1) True]
    consider (empty) "peek b r c = EMPTY" | (own) "peek b r c = p"
      | (opp) "peek b r c \<noteq> EMPTY" "peek b r c \<noteq> p"
      by blast
    then show ?thesis
    proof cases
      case empty
      have "\<not> run_to_own b p d r c n" for n
        using empty "1.prems"(2) by (cases n) (simp_all add: other_player_def)
      with True cell empty show ?thesis
        by (subst walk_to_own.simps) simp
    next
      case own
      then have "run_to_own b p d r c 0"
        using True by simp
      then have "\<exists>n. run_to_own b p d r c n" ..
      with True cell own "1.prems"(2) show ?thesis
        by (subst walk_to_own.simps) simp
    next
      case opp
      then have v: "peek b r c = other_player p"
        using "1.prems"(2) by (intro not_own_not_empty)
      have ih: "walk_to_own b p d (r + dr d) (c + dc d)
                  = Inr (\<exists>n. run_to_own b p d (r + dr d) (c + dc d) n)"
        using "1.IH" [OF True cell opp(1) opp(2)] "1.prems" by simp
      have "(\<exists>n. run_to_own b p d r c n) = (\<exists>n. run_to_own b p d (r + dr d) (c + dc d) n)"
      proof
        assume "\<exists>n. run_to_own b p d r c n"
        then obtain n where n: "run_to_own b p d r c n" ..
        with opp(2) obtain m where "n = Suc m"
          by (cases n) simp_all
        with n show "\<exists>n. run_to_own b p d (r + dr d) (c + dc d) n" by auto
      next
        assume "\<exists>n. run_to_own b p d (r + dr d) (c + dc d) n"
        then obtain n where "run_to_own b p d (r + dr d) (c + dc d) n" ..
        with True v have "run_to_own b p d r c (Suc n)" by simp
        then show "\<exists>n. run_to_own b p d r c n" ..
      qed
      with True cell opp ih show ?thesis
        by (subst walk_to_own.simps) simp
    qed
  qed
qed

lemma try_directions_run:
  assumes "grid_ok b" "p \<noteq> EMPTY"
  shows "try_directions b p (other_player p) row col ds
           = Inr (\<exists>d\<in>set ds. \<exists>n. run_to_own b p d (row + dr d) (col + dc d) (Suc n))"
proof (induction ds)
  case Nil
  show ?case by simp
next
  case (Cons d ds)
  show ?case
  proof (cases "on_board (row + dr d) (col + dc d)")
    case False
    then show ?thesis using Cons by (simp add: Let_def)
  next
    case True
    note cell = cell_at_on_board [OF assms(1) True]
    note walk = walk_to_own_run [OF assms]
    show ?thesis
      using True Cons by (auto simp add: Let_def cell walk)
  qed
qed

lemma run_to_own_iff:
  "run_to_own b p d r c n \<longleftrightarrow>
     (\<forall>j<n. on_board (r + int j * dr d) (c + int j * dc d)
            \<and> peek b (r + int j * dr d) (c + int j * dc d) = other_player p)
     \<and> on_board (r + int n * dr d) (c + int n * dc d)
     \<and> peek b (r + int n * dr d) (c + int n * dc d) = p"
proof (induction n arbitrary: r c)
  case 0
  show ?case by simp
next
  case (Suc n)
  have shift: "r + dr d + int j * dr d = r + (1 + int j) * dr d"
         "c + dc d + int j * dc d = c + (1 + int j) * dc d" for j
    by (simp_all add: algebra_simps)
  show ?case
    by (simp add: Suc All_less_Suc2 shift)
qed

lemma captures_run:
  "captures b p row col d \<longleftrightarrow> (\<exists>n. run_to_own b p d (row + dr d) (col + dc d) (Suc n))"
proof -
  have shift: "row + dr d + int j * dr d = row + (int j + 1) * dr d"
         "col + dc d + int j * dc d = col + (int j + 1) * dc d" for j
    by (simp_all add: algebra_simps)
  have range: "(\<forall>j\<in>{1..k}. P j) \<longleftrightarrow> (\<forall>j<k. P (Suc j))" for k and P :: "nat \<Rightarrow> bool"
  proof
    assume a: "\<forall>j\<in>{1..k}. P j"
    show "\<forall>j<k. P (Suc j)"
    proof (intro allI impI)
      fix j assume "j < k"
      then have "Suc j \<in> {1..k}" by simp
      with a show "P (Suc j)" by blast
    qed
  next
    assume a: "\<forall>j<k. P (Suc j)"
    show "\<forall>j\<in>{1..k}. P j"
    proof
      fix j assume "j \<in> {1..k}"
      then obtain i where "j = Suc i" "i < k"
        by (cases j) simp_all
      with a show "P j" by blast
    qed
  qed
  have "captures b p row col d \<longleftrightarrow> (\<exists>k\<ge>1. run_to_own b p d (row + dr d) (col + dc d) k)"
    unfolding captures_def run_to_own_iff range shift
    by (simp add: algebra_simps)
  also have "\<dots> \<longleftrightarrow> (\<exists>n. run_to_own b p d (row + dr d) (col + dc d) (Suc n))"
  proof
    assume "\<exists>k\<ge>1. run_to_own b p d (row + dr d) (col + dc d) k"
    then obtain k where k: "1 \<le> k" "run_to_own b p d (row + dr d) (col + dc d) k" by blast
    then obtain n where "k = Suc n" by (cases k) simp_all
    with k show "\<exists>n. run_to_own b p d (row + dr d) (col + dc d) (Suc n)" by blast
  next
    assume "\<exists>n. run_to_own b p d (row + dr d) (col + dc d) (Suc n)"
    then obtain n where "run_to_own b p d (row + dr d) (col + dc d) (Suc n)" ..
    moreover have "1 \<le> Suc n" by simp
    ultimately show "\<exists>k\<ge>1. run_to_own b p d (row + dr d) (col + dc d) k" by blast
  qed
  finally show ?thesis .
qed

lemma is_valid_move_wrapped:
  assumes "state_ok s" "- SIZE \<le> row" "row < SIZE" "- SIZE \<le> col" "col < SIZE"
  shows "is_valid_move s row col =
           Inr (peek (board s) (row mod SIZE) (col mod SIZE) = EMPTY
                \<and> (\<exists>d\<in>set DIRECTIONS. captures (board s) (current_player s) row col d))"
proof -
  from assms(1) have g: "grid_ok (board s)" and p: "current_player s \<noteq> EMPTY"
    by (simp_all add: state_ok_def)
  show ?thesis
    by (simp add: is_valid_move_def cell_at_wrapped [OF g assms(2-5)]
          try_directions_run [OF g p] captures_run)
qed

lemma is_valid_move_on_board:
  assumes "state_ok s" "on_board row col"
  shows "is_valid_move s row col =
           Inr (peek (board s) row col = EMPTY
                \<and> (\<exists>d\<in>set DIRECTIONS. captures (board s) (current_player s) row col d))"
proof -
  have "- SIZE \<le> row" "row < SIZE" "- SIZE \<le> col" "col < SIZE"
       "row mod SIZE = row" "col mod SIZE = col"
    using assms(2) by (simp_all add: on_board_def SIZE_def)
  with is_valid_move_wrapped [OF assms(1), of row col] show ?thesis
    by simp
qed

text \<open>
  Claim C1. For every well-shaped board, either colour to move, and every on-board
  coordinate \<open>(row, col)\<close> whose cell is \<open>EMPTY\<close>, \<open>is_valid_move\<close> returns (without
  raising) the truth value of "at least one of the eight directions captures", where a
  direction captures exactly when a run of one or more opponent cells starts next to
  \<open>(row, col)\<close>, lies on the board, and is followed at once by an on-board cell of the
  player to move.
\<close>

theorem is_valid_move_iff_capture:
  assumes "state_ok s" "on_board row col" "peek (board s) row col = EMPTY"
  shows "is_valid_move s row col
           = Inr (\<exists>d\<in>set DIRECTIONS. captures (board s) (current_player s) row col d)"
  using is_valid_move_on_board [OF assms(1,2)] assms(3) by simp

theorem is_valid_move_iff_capture_witness:
  "state_ok new_board \<and> on_board 2 3 \<and> peek (board new_board) 2 3 = EMPTY
   \<and> is_valid_move new_board 2 3 = Inr True
   \<and> (\<exists>d\<in>set DIRECTIONS. captures (board new_board) (current_player new_board) 2 3 d)"
proof -
  have h1: "state_ok new_board"
    by code_simp
  have h2: "on_board 2 3"
    by (simp add: on_board_def SIZE_def)
  have h3: "peek (board new_board) 2 3 = EMPTY"
    by code_simp
  have v: "is_valid_move new_board 2 3 = Inr True"
    by code_simp
  from is_valid_move_iff_capture [OF h1 h2 h3] v
  have "\<exists>d\<in>set DIRECTIONS. captures (board new_board) (current_player new_board) 2 3 d"
    by simp
  with h1 h2 h3 v show ?thesis by blast
qed

text \<open>
  Claim C10. \<open>is_valid_move\<close> does not reject a negative coordinate. On every
  well-shaped board, for \<open>row\<close> and \<open>col\<close> in \<open>[-8, 8)\<close> with at least one of them
  negative, the coordinate is off the board and the call still returns a boolean and
  raises nothing: the emptiness test reads the wrapped cell
  \<open>(row mod 8, col mod 8)\<close>, counted from the opposite edge, while the capture runs are
  those seen from \<open>(row, col)\<close> itself. The verdict is therefore not about the cell the
  index reads: in the position reached by \<open>moves edge_position\<close>, the call at
  \<open>(3, -1)\<close> says \<open>True\<close> though the cell it reads, \<open>(3, 7)\<close>, is no legal move.
\<close>

theorem is_valid_move_negative_index:
  assumes "state_ok s" "- SIZE \<le> row" "row < SIZE" "- SIZE \<le> col" "col < SIZE"
    and "row < 0 \<or> col < 0"
  shows "\<not> on_board row col
         \<and> is_valid_move s row col =
             Inr (peek (board s) (row mod SIZE) (col mod SIZE) = EMPTY
                  \<and> (\<exists>d\<in>set DIRECTIONS. captures (board s) (current_player s) row col d))"
  using is_valid_move_wrapped [OF assms(1-5)] assms(6) by (auto simp: on_board_def)

theorem is_valid_move_negative_index_witness:
  "state_ok edge_position \<and> - SIZE \<le> 3 \<and> 3 < SIZE \<and> - SIZE \<le> - 1 \<and> - 1 < SIZE
   \<and> replay new_board (moves edge_position) = Inr edge_position
   \<and> \<not> on_board 3 (- 1)
   \<and> is_valid_move edge_position 3 (- 1) = Inr True
   \<and> is_valid_move edge_position 3 7 = Inr False
   \<and> peek (board edge_position) 3 7 = EMPTY
   \<and> (\<exists>d\<in>set DIRECTIONS. captures (board edge_position) (current_player edge_position) 3 (- 1) d)"
proof -
  have h1: "state_ok edge_position"
    by code_simp
  have h2: "- SIZE \<le> 3" "3 < SIZE" "- SIZE \<le> - 1" "- 1 < SIZE" "(3::int) < 0 \<or> (- 1::int) < 0"
    by (simp_all add: SIZE_def)
  have reach: "replay new_board (moves edge_position) = Inr edge_position"
    by code_simp
  have v: "is_valid_move edge_position 3 (- 1) = Inr True"
    by code_simp
  have w: "is_valid_move edge_position 3 7 = Inr False"
    by code_simp
  from is_valid_move_negative_index [OF h1 h2] v
  have "\<not> on_board 3 (- 1)"
    and "peek (board edge_position) (3 mod SIZE) (- 1 mod SIZE) = EMPTY
         \<and> (\<exists>d\<in>set DIRECTIONS. captures (board edge_position) (current_player edge_position) 3 (- 1) d)"
    by simp_all
  with h1 h2 reach v w show ?thesis
    by (simp add: SIZE_def)
qed

subsection \<open>A rejected move changes nothing\<close>

text \<open>
  Claim C9. Whenever \<open>is_valid_move\<close> returns \<open>False\<close> for \<open>(row, col)\<close>, on any board
  and so at every on-board coordinate, \<open>make_move\<close> returns \<open>False\<close> and the whole
  object is as before: every cell, \<open>current_player\<close> and the list \<open>moves\<close>.
\<close>

theorem make_move_rejected:
  "is_valid_move s row col = Inr False \<Longrightarrow> make_move s row col = Inr (False, s)"
  by (simp add: make_move_def)

theorem make_move_rejected_witness:
  "on_board 0 0 \<and> is_valid_move new_board 0 0 = Inr False
   \<and> make_move new_board 0 0 = Inr (False, new_board)"
proof -
  have h: "is_valid_move new_board 0 0 = Inr False"
    by code_simp
  have "on_board 0 0"
    by (simp add: on_board_def SIZE_def)
  with h make_move_rejected [OF h] show ?thesis by simp
qed

subsection \<open>The valid moves and the end of the game\<close>

lemma all_cells_on_board: "(r, c) \<in> set all_cells \<longleftrightarrow> on_board r c"
proof -
  have "set range_SIZE = {0..<8}"
  proof -
    have "set range_SIZE = int ` {0..<8}"
      by (simp add: range_SIZE_def SIZE_def)
    also have "\<dots> = {0..<8}"
      by (simp add: image_int_atLeastLessThan)
    finally show ?thesis .
  qed
  then have "set all_cells = {0..<8} \<times> {0..<8}"
    by (auto simp: all_cells_def)
  then show ?thesis
    by (auto simp: on_board_def SIZE_def)
qed

lemma is_valid_move_total:
  assumes "state_ok s" "on_board row col"
  shows "is_valid_move s row col = Inr (is_valid_move s row col = Inr True)"
  by (simp add: is_valid_move_on_board [OF assms])

lemma valid_among_filter:
  assumes "state_ok s" "\<forall>(r, c)\<in>set cells. on_board r c"
  shows "valid_among s cells acc
           = Inr (acc @ filter (\<lambda>(r, c). is_valid_move s r c = Inr True) cells)"
  using assms(2)
proof (induction cells arbitrary: acc)
  case Nil
  show ?case by simp
next
  case (Cons rc cells)
  obtain r c where rc: "rc = (r, c)" by (cases rc)
  with Cons.prems have ob: "on_board r c" by simp
  have tot: "is_valid_move s r c = Inr (is_valid_move s r c = Inr True)"
    by (rule is_valid_move_total [OF assms(1) ob])
  from Cons.prems have rest: "\<forall>(r, c)\<in>set cells. on_board r c" by simp
  show ?case
  proof (cases "is_valid_move s r c = Inr True")
    case True
    then show ?thesis by (simp add: rc Cons.IH [OF rest])
  next
    case False
    with tot have "is_valid_move s r c = Inr False" by simp
    with False show ?thesis by (simp add: rc Cons.IH [OF rest])
  qed
qed

lemma get_valid_moves_filter:
  assumes "state_ok s"
  shows "get_valid_moves s = Inr (filter (\<lambda>(r, c). is_valid_move s r c = Inr True) all_cells)"
proof -
  have "\<forall>(r, c)\<in>set all_cells. on_board r c"
    by (auto simp: all_cells_on_board)
  from valid_among_filter [OF assms this, of "[]"] show ?thesis
    by (simp add: get_valid_moves_def)
qed

lemma get_valid_moves_member:
  assumes "state_ok s" "get_valid_moves s = Inr vs" "(r, c) \<in> set vs"
  shows "on_board r c \<and> is_valid_move s r c = Inr True"
  using assms by (auto simp: get_valid_moves_filter all_cells_on_board)

lemma has_valid_moves_eq:
  assumes "state_ok s"
  shows "has_valid_moves s = Inr (get_valid_moves s \<noteq> Inr [])"
  by (auto simp: has_valid_moves_def get_valid_moves_filter [OF assms])

lemma state_ok_switch_player: "state_ok s \<Longrightarrow> state_ok (switch_player s)"
  by (simp add: state_ok_def switch_player_def other_player_def)

lemma switch_player_twice: "current_player s \<noteq> EMPTY \<Longrightarrow> switch_player (switch_player s) = s"
  by (cases "current_player s") (simp_all add: switch_player_def other_player_def)

lemma is_game_over_eq:
  assumes "state_ok s"
  shows "is_game_over s
           = Inr (get_valid_moves s = Inr [] \<and> get_valid_moves (switch_player s) = Inr [], s)"
proof -
  have p: "current_player s \<noteq> EMPTY"
    using assms by (simp add: state_ok_def)
  show ?thesis
    by (simp add: is_game_over_def has_valid_moves_eq [OF assms]
          has_valid_moves_eq [OF state_ok_switch_player [OF assms]]
          switch_player_twice [OF p] Let_def)
qed

text \<open>
  Claim C4. For every well-shaped board and either colour to move, \<open>is_game_over\<close>
  raises nothing, returns \<open>True\<close> exactly when \<open>get_valid_moves\<close> is empty both for the
  player to move and, on the same board, for the opponent, and hands back the object
  it was given: all 64 cells, \<open>current_player\<close> (toggled twice on the path that probes
  the opponent) and the move list are as before the call.
\<close>

theorem is_game_over_side_effect_free:
  assumes "state_ok s"
  shows "is_game_over s
           = Inr (get_valid_moves s = Inr [] \<and> get_valid_moves (switch_player s) = Inr [], s)
         \<and> board (switch_player s) = board s
         \<and> current_player (switch_player s) = other_player (current_player s)"
  using is_game_over_eq [OF assms] by (simp add: switch_player_def)

theorem is_game_over_side_effect_free_witness:
  "state_ok pass_position
   \<and> get_valid_moves pass_position = Inr []
   \<and> get_valid_moves (switch_player pass_position) \<noteq> Inr []
   \<and> is_game_over pass_position = Inr (False, pass_position)"
proof -
  have h: "state_ok pass_position"
    by code_simp
  have mine: "get_valid_moves pass_position = Inr []"
    by code_simp
  have theirs: "get_valid_moves (switch_player pass_position) \<noteq> Inr []"
    by code_simp
  from is_game_over_side_effect_free [OF h] mine theirs
  have "is_game_over pass_position = Inr (False, pass_position)"
    by simp
  with h mine theirs show ?thesis by simp
qed

subsection \<open>Writing cells\<close>

lemma count_update:
  "j < length xs \<Longrightarrow>
     length (filter P (xs[j := v])) + (if P (xs ! j) then 1 else 0)
       = length (filter P xs) + (if P v then 1 else 0)"
proof (induction xs arbitrary: j)
  case Nil
  then show ?case by simp
next
  case (Cons x xs)
  show ?case
  proof (cases j)
    case 0
    then show ?thesis by simp
  next
    case (Suc k)
    with Cons.prems have "k < length xs" by simp
    from Cons.IH [OF this] Suc show ?thesis by simp
  qed
qed

lemma sum_list_map_update:
  fixes f :: "'a \<Rightarrow> nat"
  shows "i < length xs \<Longrightarrow>
     sum_list (map f (xs[i := y])) + f (xs ! i) = sum_list (map f xs) + f y"
proof (induction xs arbitrary: i)
  case Nil
  then show ?case by simp
next
  case (Cons x xs)
  show ?case
  proof (cases i)
    case 0
    then show ?thesis by simp
  next
    case (Suc k)
    with Cons.prems have "k < length xs" by simp
    from Cons.IH [OF this] Suc show ?thesis by simp
  qed
qed

lemma occupied_place:
  assumes "i < length b" "j < length (b ! i)"
  shows "occupied (place i j v b) + (if b ! i ! j \<noteq> EMPTY then 1 else 0)
           = occupied b + (if v \<noteq> EMPTY then 1 else 0)"
proof -
  let ?f = "\<lambda>line. length (filter (\<lambda>v. v \<noteq> EMPTY) line)"
  have "occupied (place i j v b) + ?f (b ! i) = occupied b + ?f ((b ! i)[j := v])"
    unfolding occupied_def place_def by (rule sum_list_map_update [OF assms(1)])
  moreover have "?f ((b ! i)[j := v]) + (if b ! i ! j \<noteq> EMPTY then 1 else 0)
                   = ?f (b ! i) + (if v \<noteq> EMPTY then 1 else 0)"
    by (rule count_update [OF assms(2)])
  ultimately show ?thesis by linarith
qed

lemma on_board_nat: "on_board r c \<Longrightarrow> nat r < 8 \<and> nat c < 8 \<and> 0 \<le> r \<and> 0 \<le> c"
  by (auto simp: on_board_def SIZE_def)

lemma grid_ok_place: "grid_ok b \<Longrightarrow> grid_ok (place i j v b)"
proof (cases "i < length b")
  case True
  assume "grid_ok b"
  with True show ?thesis
    by (auto simp: grid_ok_def place_def list_all_length nth_list_update)
next
  case False
  assume "grid_ok b"
  moreover from False have "b[i := (b ! i)[j := v]] = b"
    by (intro list_update_beyond) simp
  ultimately show ?thesis
    by (simp add: place_def)
qed

lemma peek_place:
  assumes "grid_ok b" "on_board r c" "on_board r' c'"
  shows "peek (place (nat r) (nat c) v b) r' c' = (if (r', c') = (r, c) then v else peek b r' c')"
proof -
  have r: "nat r < length b" "nat r' < length b"
    using assms on_board_nat by (simp_all add: grid_ok_length)
  have c: "nat c < length (b ! nat r)"
    using assms on_board_nat by (simp add: grid_ok_row)
  have eq: "nat r' = nat r \<longleftrightarrow> r' = r" "nat c' = nat c \<longleftrightarrow> c' = c"
    using assms(2,3) by (auto simp: on_board_def)
  show ?thesis
    using r c eq by (auto simp: peek_def place_def nth_list_update)
qed

lemma set_cell_on_board:
  assumes "grid_ok b" "on_board r c"
  shows "set_cell b r c v = Inr (place (nat r) (nat c) v b)"
proof -
  have r: "0 \<le> r" "r < 8" and c: "0 \<le> c" "c < 8"
    using assms(2) by (simp_all add: on_board_def SIZE_def)
  have "nat r < 8" using r by arith
  then have "length (b ! nat r) = 8" by (rule grid_ok_row [OF assms(1)])
  then show ?thesis
    using r c
    by (simp add: set_cell_def getitem_in_range setitem_def grid_ok_length [OF assms(1)] place_def)
qed

lemma occupied_le: "grid_ok b \<Longrightarrow> occupied b \<le> 64"
proof -
  assume g: "grid_ok b"
  have "sum_list (map (\<lambda>line. length (filter (\<lambda>v. v \<noteq> EMPTY) line)) b)
          \<le> sum_list (map (\<lambda>line. 8) b)"
  proof (rule sum_list_mono)
    fix line assume "line \<in> set b"
    with g have "length line = 8" by (simp add: grid_ok_def list_all_iff SIZE_def)
    moreover have "length (filter (\<lambda>v. v \<noteq> EMPTY) line) \<le> length line" by simp
    ultimately show "length (filter (\<lambda>v. v \<noteq> EMPTY) line) \<le> 8" by simp
  qed
  also have "\<dots> = 64" using g by (simp add: sum_list_triv grid_ok_def SIZE_def)
  finally show ?thesis by (simp add: occupied_def)
qed

lemma recoloured_refl: "grid_ok b \<Longrightarrow> recoloured b p b"
  by (simp add: recoloured_def)

lemma recoloured_flip:
  assumes "recoloured b0 p b" "p \<noteq> EMPTY" "on_board r c"
    and "peek b r c = other_player p \<or> peek b r c = p"
  shows "recoloured b0 p (place (nat r) (nat c) p b)"
proof -
  let ?b = "place (nat r) (nat c) p b"
  from assms(1) have g: "grid_ok b" and occ: "occupied b = occupied b0"
    by (simp_all add: recoloured_def)
  have diff: "peek b0 r c = other_player p \<and> peek b r c = p"
    if "on_board r c" "peek b r c \<noteq> peek b0 r c" for r c
    using assms(1) that unfolding recoloured_def by blast
  have i: "nat r < length b" and j: "nat c < length (b ! nat r)"
    using g on_board_nat [OF assms(3)] by (simp_all add: grid_ok_length grid_ok_row)
  have "peek b r c \<noteq> EMPTY"
    using assms(2,4) other_player_not_empty [of p] by metis
  then have old: "b ! nat r ! nat c \<noteq> EMPTY"
    by (simp add: peek_def)
  have "occupied ?b + 1 = occupied b + 1"
    using occupied_place [OF i j, of p] old assms(2) by simp
  then have occ': "occupied ?b = occupied b0"
    using occ by simp
  have cells: "peek b0 r' c' = other_player p \<and> peek ?b r' c' = p"
    if ob: "on_board r' c'" and ne: "peek ?b r' c' \<noteq> peek b0 r' c'" for r' c'
  proof -
    have pk: "peek ?b r' c' = (if (r', c') = (r, c) then p else peek b r' c')"
      by (rule peek_place [OF g assms(3) ob])
    show ?thesis
    proof (cases "(r', c') = (r, c)")
      case True
      then have new: "peek ?b r' c' = p" and same: "r' = r" "c' = c"
        using pk by simp_all
      from ne new same have "peek b0 r c \<noteq> p" by metis
      then have "peek b0 r c = other_player p"
        using assms(4) diff [OF assms(3)] by metis
      with new same show ?thesis by simp
    next
      case False
      then have "peek ?b r' c' = peek b r' c'"
        using pk by auto
      with ne diff [OF ob] show ?thesis by simp
    qed
  qed
  show ?thesis
    unfolding recoloured_def using grid_ok_place [OF g] occ' cells by blast
qed

lemma gather_flips_cells:
  assumes "grid_ok b"
  shows "(\<forall>(r, c)\<in>set to_flip. on_board r c \<and> peek b r c = opponent) \<Longrightarrow>
         \<exists>tf. gather_flips b p opponent d r c to_flip = Inr tf
              \<and> (\<forall>(r, c)\<in>set tf. on_board r c \<and> peek b r c = opponent)"
  using assms
proof (induction b p opponent d r c to_flip rule: gather_flips.induct)
  case (1 b p opponent d r c to_flip)
  note g = \<open>grid_ok b\<close>
  show ?case
  proof (cases "on_board r c \<and> peek b r c = opponent")
    case False
    with "1.prems"(1) g show ?thesis
      by (subst gather_flips.simps) (auto simp: cell_at_on_board)
  next
    case here: True
    then have cell: "cell_at b r c = Inr (peek b r c)"
      using g by (simp add: cell_at_on_board)
    let ?r = "r + dr d" and ?c = "c + dc d" and ?tf = "to_flip @ [(r, c)]"
    have tf: "\<forall>(r, c)\<in>set ?tf. on_board r c \<and> peek b r c = opponent"
      using "1.prems"(1) here by auto
    show ?thesis
    proof (cases "on_board ?r ?c")
      case False
      with here cell show ?thesis
        by (subst gather_flips.simps) (simp add: Let_def)
    next
      case next_on: True
      then have cell': "cell_at b ?r ?c = Inr (peek b ?r ?c)"
        using g by (simp add: cell_at_on_board)
      consider (empty) "peek b ?r ?c = EMPTY" | (own) "peek b ?r ?c \<noteq> EMPTY" "peek b ?r ?c = p"
        | (other) "peek b ?r ?c \<noteq> EMPTY" "peek b ?r ?c \<noteq> p"
        by blast
      then show ?thesis
      proof cases
        case empty
        with here cell next_on cell' show ?thesis
          by (subst gather_flips.simps) (simp add: Let_def)
      next
        case own
        with here cell next_on cell' tf show ?thesis
          by (subst gather_flips.simps) (simp add: Let_def)
      next
        case other
        have nn: "\<not> \<not> on_board ?r ?c" using next_on by simp
        from here have h1: "on_board r c" and h2: "peek b r c = opponent" by simp_all
        have ih: "\<exists>tf. gather_flips b p opponent d ?r ?c ?tf = Inr tf
                    \<and> (\<forall>(r, c)\<in>set tf. on_board r c \<and> peek b r c = opponent)"
          using "1.IH" [OF h1 cell h2 refl refl refl nn cell' other(1) other(2) tf g] .
        from here cell next_on cell' other
        have "gather_flips b p opponent d r c to_flip = gather_flips b p opponent d ?r ?c ?tf"
          by (subst gather_flips.simps) (simp add: Let_def)
        with ih show ?thesis by simp
      qed
    qed
  qed
qed

subsection \<open>The effect of \<open>make_move\<close>\<close>

lemma flip_cells_recoloured:
  assumes "p \<noteq> EMPTY"
  shows "recoloured b0 p b \<Longrightarrow>
         (\<forall>(r, c)\<in>set to_flip. on_board r c \<and> (peek b r c = other_player p \<or> peek b r c = p)) \<Longrightarrow>
         \<exists>b'. flip_cells b p to_flip = Inr b' \<and> recoloured b0 p b'"
proof (induction to_flip arbitrary: b)
  case Nil
  then show ?case by simp
next
  case (Cons rc to_flip)
  obtain r c where rc: "rc = (r, c)" by (cases rc)
  from Cons.prems(2) rc have ob: "on_board r c"
    and col: "peek b r c = other_player p \<or> peek b r c = p"
    by simp_all
  from Cons.prems(1) have g: "grid_ok b" by (simp add: recoloured_def)
  let ?b = "place (nat r) (nat c) p b"
  have step: "set_cell b r c p = Inr ?b"
    by (rule set_cell_on_board [OF g ob])
  have rec: "recoloured b0 p ?b"
    by (rule recoloured_flip [OF Cons.prems(1) assms ob col])
  have rest: "\<forall>(r', c')\<in>set to_flip.
                on_board r' c' \<and> (peek ?b r' c' = other_player p \<or> peek ?b r' c' = p)"
  proof (clarify, rule conjI)
    fix r' c' assume m: "(r', c') \<in> set to_flip"
    with Cons.prems(2) have ob': "on_board r' c'"
      and col': "peek b r' c' = other_player p \<or> peek b r' c' = p"
      by auto
    show "on_board r' c'" by (rule ob')
    have "peek ?b r' c' = (if (r', c') = (r, c) then p else peek b r' c')"
      by (rule peek_place [OF g ob ob'])
    with col' show "peek ?b r' c' = other_player p \<or> peek ?b r' c' = p"
      by auto
  qed
  from Cons.IH [OF rec rest] show ?case
    by (simp add: rc step)
qed

lemma flip_directions_recoloured:
  assumes "p \<noteq> EMPTY"
  shows "recoloured b0 p b \<Longrightarrow>
         \<exists>b'. flip_directions b p (other_player p) row col ds = Inr b' \<and> recoloured b0 p b'"
proof (induction ds arbitrary: b)
  case Nil
  then show ?case by simp
next
  case (Cons d ds)
  from Cons.prems have g: "grid_ok b" by (simp add: recoloured_def)
  have "\<forall>(r, c)\<in>set []. on_board r c \<and> peek b r c = other_player p" by simp
  from gather_flips_cells [OF g this, of p d "row + dr d" "col + dc d"]
  obtain tf where tf: "gather_flips b p (other_player p) d (row + dr d) (col + dc d) [] = Inr tf"
    and cells: "\<forall>(r, c)\<in>set tf. on_board r c \<and> peek b r c = other_player p"
    by blast
  from cells have "\<forall>(r, c)\<in>set tf. on_board r c \<and> (peek b r c = other_player p \<or> peek b r c = p)"
    by auto
  from flip_cells_recoloured [OF assms Cons.prems this]
  obtain b' where b': "flip_cells b p tf = Inr b'" and rec: "recoloured b0 p b'"
    by blast
  from Cons.IH [OF rec] show ?case
    by (simp add: tf b')
qed

lemma make_move_valid:
  assumes "state_ok s" "on_board row col" "is_valid_move s row col = Inr True"
  shows "\<exists>b2 t. make_move s row col =
                  Inr (True, s\<lparr>board := b2, moves := moves s @ [t],
                                current_player := other_player (current_player s)\<rparr>)
              \<and> coords_to_notation row col = Inr t
              \<and> notation_to_coords t = Inr (row, col)
              \<and> peek (board s) row col = EMPTY
              \<and> recoloured (place (nat row) (nat col) (current_player s) (board s))
                   (current_player s) b2"
proof -
  let ?p = "current_player s"
  let ?b1 = "place (nat row) (nat col) ?p (board s)"
  from assms(1) have g: "grid_ok (board s)" and p: "?p \<noteq> EMPTY"
    by (simp_all add: state_ok_def)
  from is_valid_move_on_board [OF assms(1,2)] assms(3)
  have empty: "peek (board s) row col = EMPTY" by simp
  have put: "set_cell (board s) row col ?p = Inr ?b1"
    by (rule set_cell_on_board [OF g assms(2)])
  have "recoloured ?b1 ?p ?b1"
    by (rule recoloured_refl [OF grid_ok_place [OF g]])
  from flip_directions_recoloured [OF p this, of row col DIRECTIONS]
  obtain b2 where b2: "flip_directions ?b1 ?p (other_player ?p) row col DIRECTIONS = Inr b2"
    and rec: "recoloured ?b1 ?p b2"
    by blast
  from decode_encode [OF assms(2)]
  obtain t where t: "coords_to_notation row col = Inr t" "notation_to_coords t = Inr (row, col)"
    by blast
  have "make_move s row col =
          Inr (True, s\<lparr>board := b2, moves := moves s @ [t], current_player := other_player ?p\<rparr>)"
    by (simp add: make_move_def assms(3) put b2 t(1))
  with t empty rec show ?thesis by blast
qed

lemma make_move_effect:
  assumes "state_ok s" "on_board row col" "is_valid_move s row col = Inr True"
  shows "\<exists>s' t. make_move s row col = Inr (True, s')
           \<and> state_ok s'
           \<and> current_player s' = other_player (current_player s)
           \<and> moves s' = moves s @ [t]
           \<and> coords_to_notation row col = Inr t
           \<and> notation_to_coords t = Inr (row, col)
           \<and> occupied (board s') = occupied (board s) + 1
           \<and> peek (board s) row col = EMPTY
           \<and> peek (board s') row col = current_player s
           \<and> (\<forall>r c. on_board r c \<and> (r, c) \<noteq> (row, col)
                    \<and> peek (board s') r c \<noteq> peek (board s) r c
                  \<longrightarrow> peek (board s) r c = other_player (current_player s)
                      \<and> peek (board s') r c = current_player s)"
proof -
  let ?p = "current_player s"
  let ?b1 = "place (nat row) (nat col) ?p (board s)"
  from assms(1) have g: "grid_ok (board s)" and p: "?p \<noteq> EMPTY"
    by (simp_all add: state_ok_def)
  from make_move_valid [OF assms]
  obtain b2 t where mm: "make_move s row col =
        Inr (True, s\<lparr>board := b2, moves := moves s @ [t], current_player := other_player ?p\<rparr>)"
    and t: "coords_to_notation row col = Inr t" "notation_to_coords t = Inr (row, col)"
    and empty: "peek (board s) row col = EMPTY"
    and rec: "recoloured ?b1 ?p b2"
    by blast
  let ?s = "s\<lparr>board := b2, moves := moves s @ [t], current_player := other_player ?p\<rparr>"
  from rec have g2: "grid_ok b2" and occ2: "occupied b2 = occupied ?b1"
    by (simp_all add: recoloured_def)
  have diff: "peek ?b1 r c = other_player ?p \<and> peek b2 r c = ?p"
    if "on_board r c" "peek b2 r c \<noteq> peek ?b1 r c" for r c
    using rec that unfolding recoloured_def by blast
  have b1: "peek ?b1 r c = (if (r, c) = (row, col) then ?p else peek (board s) r c)"
    if "on_board r c" for r c
    by (rule peek_place [OF g assms(2) that])
  have ok: "state_ok ?s"
    using g2 other_player_not_empty by (simp add: state_ok_def)
  have i: "nat row < length (board s)" and j: "nat col < length (board s ! nat row)"
    using g on_board_nat [OF assms(2)] by (simp_all add: grid_ok_length grid_ok_row)
  have "board s ! nat row ! nat col = EMPTY"
    using empty by (simp add: peek_def)
  with occupied_place [OF i j, of ?p] p have "occupied ?b1 = occupied (board s) + 1"
    by simp
  with occ2 have occ: "occupied (board ?s) = occupied (board s) + 1"
    by simp
  have here: "peek (board ?s) row col = ?p"
  proof (rule ccontr)
    assume "peek (board ?s) row col \<noteq> ?p"
    then have "peek b2 row col \<noteq> peek ?b1 row col"
      using b1 [OF assms(2)] by simp
    from diff [OF assms(2) this] b1 [OF assms(2)] other_player_neq [OF p]
    show False by simp
  qed
  have others: "peek (board s) r c = other_player ?p \<and> peek (board ?s) r c = ?p"
    if "on_board r c" "(r, c) \<noteq> (row, col)" "peek (board ?s) r c \<noteq> peek (board s) r c" for r c
  proof -
    have same: "peek ?b1 r c = peek (board s) r c"
      using b1 [OF that(1)] that(2) by auto
    with that(3) have "peek b2 r c \<noteq> peek ?b1 r c" by simp
    from diff [OF that(1) this] same show ?thesis by simp
  qed
  have "make_move s row col = Inr (True, ?s) \<and> state_ok ?s
        \<and> current_player ?s = other_player ?p \<and> moves ?s = moves s @ [t]"
    using mm ok by simp
  with t occ empty here others show ?thesis
    by blast
qed

lemma ply_cases:
  assumes "state_ok s"
  shows "(get_valid_moves s = Inr [] \<and> ply rnd i s = Inr (i, switch_player s))
       \<or> (get_valid_moves s \<noteq> Inr []
           \<and> (\<exists>row col s'. on_board row col \<and> is_valid_move s row col = Inr True
                 \<and> make_move s row col = Inr (True, s') \<and> ply rnd i s = Inr (Suc i, s')))"
proof -
  from get_valid_moves_filter [OF assms]
  obtain vs where vs: "get_valid_moves s = Inr vs" by blast
  show ?thesis
  proof (cases "vs = []")
    case True
    with vs show ?thesis by (simp add: ply_def)
  next
    case False
    let ?m = "vs ! (rnd i mod length vs)"
    obtain row col where m: "?m = (row, col)" by (cases ?m)
    from False have "rnd i mod length vs < length vs" by simp
    then have "?m \<in> set vs" by (rule nth_mem)
    with m have "(row, col) \<in> set vs" by simp
    from get_valid_moves_member [OF assms vs this]
    have ob: "on_board row col" and v: "is_valid_move s row col = Inr True" by simp_all
    from make_move_effect [OF assms ob v]
    obtain s' where mm: "make_move s row col = Inr (True, s')" by blast
    have "ply rnd i s = Inr (Suc i, s')"
      using vs False m mm by (simp add: ply_def)
    moreover from vs False have "get_valid_moves s \<noteq> Inr []" by simp
    ultimately show ?thesis using ob v mm by blast
  qed
qed

lemma ply_monotone:
  assumes "state_ok s"
  shows "\<exists>i' s'. ply rnd i s = Inr (i', s') \<and> state_ok s'
           \<and> occupied (board s) \<le> occupied (board s')"
proof -
  from ply_cases [OF assms, of rnd i] show ?thesis
  proof
    assume "get_valid_moves s = Inr [] \<and> ply rnd i s = Inr (i, switch_player s)"
    then show ?thesis
      using state_ok_switch_player [OF assms] by (simp add: switch_player_def)
  next
    assume "get_valid_moves s \<noteq> Inr []
      \<and> (\<exists>row col s'. on_board row col \<and> is_valid_move s row col = Inr True
            \<and> make_move s row col = Inr (True, s') \<and> ply rnd i s = Inr (Suc i, s'))"
    then obtain row col s' where ob: "on_board row col"
      and v: "is_valid_move s row col = Inr True"
      and mm: "make_move s row col = Inr (True, s')"
      and pl: "ply rnd i s = Inr (Suc i, s')"
      by blast
    from make_move_effect [OF assms ob v] mm
    have "state_ok s' \<and> occupied (board s') = occupied (board s) + 1"
      by auto
    with pl show ?thesis by simp
  qed
qed

text \<open>
  Claim C2. In every well-shaped state, so in every reachable one, a legal move
  \<open>(row, col)\<close> makes \<open>make_move\<close> return \<open>True\<close> with exactly one more occupied cell:
  the cell \<open>(row, col)\<close> was \<open>EMPTY\<close> and now holds the mover's colour, and every other
  on-board cell that differs held the opponent's colour before the call and holds the
  mover's after it. Every ply of \<open>generate_game\<close>, a move or a pass, leaves the number
  of occupied cells at least as large as it was.
\<close>

theorem make_move_occupancy:
  assumes "state_ok s"
  shows "(on_board row col \<and> is_valid_move s row col = Inr True \<longrightarrow>
            (\<exists>s'. make_move s row col = Inr (True, s')
               \<and> occupied (board s') = occupied (board s) + 1
               \<and> peek (board s) row col = EMPTY
               \<and> peek (board s') row col = current_player s
               \<and> (\<forall>r c. on_board r c \<and> (r, c) \<noteq> (row, col)
                        \<and> peek (board s') r c \<noteq> peek (board s) r c
                      \<longrightarrow> peek (board s) r c = other_player (current_player s)
                          \<and> peek (board s') r c = current_player s)))
       \<and> (\<exists>i' s'. ply rnd i s = Inr (i', s') \<and> occupied (board s) \<le> occupied (board s'))"
proof
  show "on_board row col \<and> is_valid_move s row col = Inr True \<longrightarrow>
            (\<exists>s'. make_move s row col = Inr (True, s')
               \<and> occupied (board s') = occupied (board s) + 1
               \<and> peek (board s) row col = EMPTY
               \<and> peek (board s') row col = current_player s
               \<and> (\<forall>r c. on_board r c \<and> (r, c) \<noteq> (row, col)
                        \<and> peek (board s') r c \<noteq> peek (board s) r c
                      \<longrightarrow> peek (board s) r c = other_player (current_player s)
                          \<and> peek (board s') r c = current_player s))"
  proof
    assume "on_board row col \<and> is_valid_move s row col = Inr True"
    then have ob: "on_board row col" and v: "is_valid_move s row col = Inr True"
      by simp_all
    from make_move_effect [OF assms ob v] show "\<exists>s'. make_move s row col = Inr (True, s')
               \<and> occupied (board s') = occupied (board s) + 1
               \<and> peek (board s) row col = EMPTY
               \<and> peek (board s') row col = current_player s
               \<and> (\<forall>r c. on_board r c \<and> (r, c) \<noteq> (row, col)
                        \<and> peek (board s') r c \<noteq> peek (board s) r c
                      \<longrightarrow> peek (board s) r c = other_player (current_player s)
                          \<and> peek (board s') r c = current_player s)"
      by blast
  qed
  from ply_monotone [OF assms, of rnd i]
  show "\<exists>i' s'. ply rnd i s = Inr (i', s') \<and> occupied (board s) \<le> occupied (board s')"
    by blast
qed

theorem make_move_occupancy_witness:
  "state_ok new_board \<and> on_board 2 3 \<and> is_valid_move new_board 2 3 = Inr True
   \<and> occupied (board new_board) = 4
   \<and> (\<exists>s'. make_move new_board 2 3 = Inr (True, s') \<and> occupied (board s') = 5
          \<and> peek (board s') 2 3 = BLACK)"
proof -
  have h1: "state_ok new_board"
    by code_simp
  have h2: "on_board 2 3"
    by (simp add: on_board_def SIZE_def)
  have h3: "is_valid_move new_board 2 3 = Inr True"
    by code_simp
  have n: "occupied (board new_board) = 4"
    by code_simp
  have p: "current_player new_board = BLACK"
    by (simp add: new_board_def)
  from make_move_occupancy [OF h1, of 2 3] h2 h3
  obtain s' where "make_move new_board 2 3 = Inr (True, s')"
    and "occupied (board s') = occupied (board new_board) + 1"
    and "peek (board s') 2 3 = current_player new_board"
    by blast
  with n p have "\<exists>s'. make_move new_board 2 3 = Inr (True, s') \<and> occupied (board s') = 5
          \<and> peek (board s') 2 3 = BLACK"
    by auto
  with h1 h2 h3 n show ?thesis by blast
qed

subsection \<open>The game loop\<close>

lemma replay_after_pass:
  assumes "state_ok s" "get_valid_moves s = Inr []" "get_valid_moves (switch_player s) \<noteq> Inr []"
  shows "replay s (t # ts) = replay (switch_player s) (t # ts)"
  using assms
  by (simp add: has_valid_moves_eq state_ok_switch_player)

lemma replay_move:
  assumes "state_ok s" "get_valid_moves s \<noteq> Inr []" "notation_to_coords t = Inr (row, col)"
    and "make_move s row col = Inr (True, s')"
  shows "replay s (t # ts) = replay s' ts"
  using assms
  by (simp add: has_valid_moves_eq)

lemma game_loop_run:
  assumes "state_ok s"
  shows "\<exists>s' ts. game_loop rnd i s = Some (Inr s') \<and> state_ok s'
           \<and> is_game_over s' = Inr (True, s')
           \<and> moves s' = moves s @ ts
           \<and> occupied (board s') = occupied (board s) + length ts
           \<and> replay s ts = Inr s'
           \<and> (ts = [] \<longrightarrow> s' = s)"
  using assms
proof (induction "plies_left s" arbitrary: s i rule: less_induct)
  case less
  note ok = \<open>state_ok s\<close>
  let ?over = "get_valid_moves s = Inr [] \<and> get_valid_moves (switch_player s) = Inr []"
  have over: "is_game_over s = Inr (?over, s)"
    by (rule is_game_over_eq [OF ok])
  show ?case
  proof (cases ?over)
    case True
    with over have "game_loop rnd i s = Some (Inr s)"
      by (subst game_loop.simps) simp
    moreover from over True have "is_game_over s = Inr (True, s)" by simp
    ultimately have "game_loop rnd i s = Some (Inr s) \<and> state_ok s
           \<and> is_game_over s = Inr (True, s) \<and> moves s = moves s @ []
           \<and> occupied (board s) = occupied (board s) + length ([] :: string list)
           \<and> replay s [] = Inr s \<and> (([] :: string list) = [] \<longrightarrow> s = s)"
      using ok by simp
    then show ?thesis by blast
  next
    case False
    from ply_cases [OF ok, of rnd i] show ?thesis
    proof
      assume pass: "get_valid_moves s = Inr [] \<and> ply rnd i s = Inr (i, switch_player s)"
      let ?s1 = "switch_player s"
      from pass False have theirs: "get_valid_moves ?s1 \<noteq> Inr []" by simp
      have ok1: "state_ok ?s1" by (rule state_ok_switch_player [OF ok])
      have "plies_left ?s1 < plies_left s"
        using pass theirs by (simp add: plies_left_def switch_player_def)
      from less.hyps [OF this ok1, of i]
      obtain s' ts where run: "game_loop rnd i ?s1 = Some (Inr s')" and ok': "state_ok s'"
        and fin: "is_game_over s' = Inr (True, s')"
        and mv: "moves s' = moves ?s1 @ ts"
        and occ: "occupied (board s') = occupied (board ?s1) + length ts"
        and rep: "replay ?s1 ts = Inr s'"
        and nil: "ts = [] \<longrightarrow> s' = ?s1"
        by blast
      have "ts \<noteq> []"
      proof
        assume "ts = []"
        with nil have "s' = ?s1" by simp
        with fin is_game_over_eq [OF ok1] theirs show False by simp
      qed
      then obtain t ts' where ts: "ts = t # ts'" by (cases ts) simp_all
      have loop: "game_loop rnd i s = Some (Inr s')"
        using over False pass run by (subst game_loop.simps) simp
      have "replay s ts = Inr s'"
        using replay_after_pass [OF ok _ theirs, of t ts'] pass rep ts by simp
      with loop ok' fin mv occ \<open>ts \<noteq> []\<close> show ?thesis
        by (auto simp: switch_player_def)
    next
      assume "get_valid_moves s \<noteq> Inr []
        \<and> (\<exists>row col s'. on_board row col \<and> is_valid_move s row col = Inr True
              \<and> make_move s row col = Inr (True, s') \<and> ply rnd i s = Inr (Suc i, s'))"
      then obtain row col s2 where mine: "get_valid_moves s \<noteq> Inr []"
        and ob: "on_board row col" and v: "is_valid_move s row col = Inr True"
        and mm: "make_move s row col = Inr (True, s2)"
        and pl: "ply rnd i s = Inr (Suc i, s2)"
        by blast
      from make_move_effect [OF ok ob v] mm
      obtain t where ok2: "state_ok s2" and mv2: "moves s2 = moves s @ [t]"
        and dec: "notation_to_coords t = Inr (row, col)"
        and occ2: "occupied (board s2) = occupied (board s) + 1"
        by auto
      from ok2 have "occupied (board s2) \<le> 64"
        by (simp add: state_ok_def occupied_le)
      with occ2 mine have "plies_left s2 < plies_left s"
        unfolding plies_left_def by (auto split: if_splits)
      from less.hyps [OF this ok2, of "Suc i"]
      obtain s' ts where run: "game_loop rnd (Suc i) s2 = Some (Inr s')" and ok': "state_ok s'"
        and fin: "is_game_over s' = Inr (True, s')"
        and mv: "moves s' = moves s2 @ ts"
        and occ: "occupied (board s') = occupied (board s2) + length ts"
        and rep: "replay s2 ts = Inr s'"
        by blast
      have loop: "game_loop rnd i s = Some (Inr s')"
        using over False pl run by (subst game_loop.simps) simp
      have "replay s (t # ts) = Inr s'"
        using replay_move [OF ok mine dec mm] rep by simp
      moreover have "moves s' = moves s @ (t # ts)"
        using mv mv2 by simp
      moreover have "occupied (board s') = occupied (board s) + length (t # ts)"
        using occ occ2 by simp
      ultimately have "game_loop rnd i s = Some (Inr s') \<and> state_ok s'
           \<and> is_game_over s' = Inr (True, s')
           \<and> moves s' = moves s @ (t # ts)
           \<and> occupied (board s') = occupied (board s) + length (t # ts)
           \<and> replay s (t # ts) = Inr s'
           \<and> (t # ts = [] \<longrightarrow> s' = s)"
        using loop ok' fin by simp
      then show ?thesis by blast
    qed
  qed
qed

lemma new_board_ok: "state_ok new_board"
  by code_simp

lemma new_board_occupied: "occupied (board new_board) = 4"
  by code_simp

lemma new_board_moves: "moves new_board = []"
  by (simp add: new_board_def)

lemma generate_game_run:
  "\<exists>s'. game_loop rnd 0 new_board = Some (Inr s')
        \<and> generate_game rnd = Some (Inr (moves s'))
        \<and> state_ok s'
        \<and> is_game_over s' = Inr (True, s')
        \<and> occupied (board s') = 4 + length (moves s')
        \<and> replay new_board (moves s') = Inr s'"
proof -
  from game_loop_run [OF new_board_ok, of rnd 0]
  obtain s' ts where run: "game_loop rnd 0 new_board = Some (Inr s')" and ok: "state_ok s'"
    and fin: "is_game_over s' = Inr (True, s')"
    and mv: "moves s' = moves new_board @ ts"
    and occ: "occupied (board s') = occupied (board new_board) + length ts"
    and rep: "replay new_board ts = Inr s'"
    by blast
  from mv have ts: "ts = moves s'"
    by (simp add: new_board_moves)
  from run have "generate_game rnd = Some (Inr (moves s'))"
    by (simp add: generate_game_def)
  with run ok fin occ rep ts show ?thesis
    by (auto simp: new_board_occupied)
qed

text \<open>
  Claim C8. For every sequence of random choices the loop of \<open>generate_game\<close> returns:
  it raises nothing and reaches a state in which \<open>is_game_over\<close> holds, after at most 60
  applied placements (one recorded token each) from the four stones of the fresh board.
\<close>

theorem generate_game_terminates:
  "\<exists>s'. game_loop rnd 0 new_board = Some (Inr s')
        \<and> generate_game rnd = Some (Inr (moves s'))
        \<and> is_game_over s' = Inr (True, s')
        \<and> occupied (board s') = 4 + length (moves s')
        \<and> length (moves s') \<le> 60"
proof -
  from generate_game_run [of rnd]
  obtain s' where run: "game_loop rnd 0 new_board = Some (Inr s')"
    and gen: "generate_game rnd = Some (Inr (moves s'))"
    and ok: "state_ok s'"
    and fin: "is_game_over s' = Inr (True, s')"
    and occ: "occupied (board s') = 4 + length (moves s')"
    by blast
  from ok have "occupied (board s') \<le> 64"
    by (simp add: state_ok_def occupied_le)
  with occ have "length (moves s') \<le> 60"
    by simp
  with run gen fin occ show ?thesis by blast
qed

theorem generate_game_terminates_witness:
  "\<exists>ms. generate_game always_first = Some (Inr ms) \<and> length ms \<le> 60"
  using generate_game_terminates [of always_first] by blast

text \<open>
  Claim C5. For every sequence of random choices, the token list \<open>generate_game\<close>
  returns, replayed on a fresh board (each token decoded and applied by \<open>make_move\<close> in
  order, the player switched before a token whenever \<open>has_valid_moves\<close> is false),
  raises nothing and ends in the final state of the run itself: the same board, hence the
  same number of occupied cells, the same player to move and the same move list.
\<close>

theorem replay_reproduces_game:
  "\<exists>s' r. game_loop rnd 0 new_board = Some (Inr s')
        \<and> generate_game rnd = Some (Inr (moves s'))
        \<and> replay new_board (moves s') = Inr r
        \<and> board r = board s'
        \<and> occupied (board r) = occupied (board s')
        \<and> current_player r = current_player s'
        \<and> moves r = moves s'"
proof -
  from generate_game_run [of rnd]
  obtain s' where "game_loop rnd 0 new_board = Some (Inr s')"
    and "generate_game rnd = Some (Inr (moves s'))"
    and "replay new_board (moves s') = Inr s'"
    by blast
  then show ?thesis by blast
qed

theorem replay_reproduces_game_witness:
  "\<exists>ms r. generate_game always_first = Some (Inr ms) \<and> replay new_board ms = Inr r
         \<and> moves r = ms"
  using replay_reproduces_game [of always_first] by blast

subsection \<open>Whose turn it is\<close>

text \<open>
  Claim C3, amended. The player to move changes to the other colour after every applied
  move, and it changes on a pass as well: when \<open>get_valid_moves\<close> is empty the ply of
  \<open>generate_game\<close> is \<open>switch_player\<close>, which hands the turn to the other colour, writes
  no cell and records no token.
\<close>

theorem player_toggles_every_ply:
  assumes "state_ok s"
  shows "(on_board row col \<and> is_valid_move s row col = Inr True \<longrightarrow>
            (\<exists>s'. make_move s row col = Inr (True, s')
               \<and> current_player s' = other_player (current_player s)
               \<and> current_player s' \<noteq> current_player s))
       \<and> (get_valid_moves s = Inr [] \<longrightarrow>
            ply rnd i s = Inr (i, switch_player s)
            \<and> current_player (switch_player s) = other_player (current_player s)
            \<and> current_player (switch_player s) \<noteq> current_player s
            \<and> board (switch_player s) = board s
            \<and> moves (switch_player s) = moves s)"
proof -
  from assms have p: "current_player s \<noteq> EMPTY"
    by (simp add: state_ok_def)
  note neq = other_player_neq [OF p]
  have move: "\<exists>s'. make_move s row col = Inr (True, s')
               \<and> current_player s' = other_player (current_player s)
               \<and> current_player s' \<noteq> current_player s"
    if "on_board row col" "is_valid_move s row col = Inr True"
    using make_move_effect [OF assms that] neq by auto
  have pass: "ply rnd i s = Inr (i, switch_player s)
            \<and> current_player (switch_player s) = other_player (current_player s)
            \<and> current_player (switch_player s) \<noteq> current_player s
            \<and> board (switch_player s) = board s
            \<and> moves (switch_player s) = moves s"
    if "get_valid_moves s = Inr []"
    using that neq by (simp add: ply_def switch_player_def)
  from move pass show ?thesis by blast
qed

theorem player_toggles_every_ply_witness:
  "state_ok new_board \<and> on_board 2 3 \<and> is_valid_move new_board 2 3 = Inr True
   \<and> (\<exists>s'. make_move new_board 2 3 = Inr (True, s') \<and> current_player s' = WHITE)
   \<and> state_ok pass_position \<and> get_valid_moves pass_position = Inr []
   \<and> current_player pass_position = BLACK
   \<and> ply always_first 0 pass_position = Inr (0, switch_player pass_position)
   \<and> current_player (switch_player pass_position) = WHITE"
proof -
  have h1: "state_ok new_board"
    by code_simp
  have h2: "on_board 2 3"
    by (simp add: on_board_def SIZE_def)
  have h3: "is_valid_move new_board 2 3 = Inr True"
    by code_simp
  have k1: "state_ok pass_position"
    by code_simp
  have k2: "get_valid_moves pass_position = Inr []"
    by code_simp
  have b: "current_player new_board = BLACK" "current_player pass_position = BLACK"
    by (simp_all add: new_board_def pass_position_def)
  from player_toggles_every_ply [OF h1, of 2 3] h2 h3 b(1)
  have m: "\<exists>s'. make_move new_board 2 3 = Inr (True, s') \<and> current_player s' = WHITE"
    by (auto simp: other_player_def)
  from player_toggles_every_ply [OF k1, of _ _ always_first 0] k2 b(2)
  have "ply always_first 0 pass_position = Inr (0, switch_player pass_position)
        \<and> current_player (switch_player pass_position) = WHITE"
    by (simp add: other_player_def)
  with h1 h2 h3 m k1 k2 b(2) show ?thesis by blast
qed

text \<open>
  The claim as written says the player to move does not change after a pass. In the
  position after the sixteen moves \<open>moves pass_position\<close> of a game, Black is to move and
  has no valid move, the game is not over, and the ply that follows is the pass: Black
  before it, White after it.
\<close>

theorem pass_changes_player_counterexample:
  "replay new_board (moves pass_position) = Inr pass_position
   \<and> get_valid_moves pass_position = Inr []
   \<and> is_game_over pass_position = Inr (False, pass_position)
   \<and> ply always_first 0 pass_position = Inr (0, switch_player pass_position)
   \<and> current_player pass_position = BLACK
   \<and> current_player (switch_player pass_position) = WHITE"
proof -
  have "replay new_board (moves pass_position) = Inr pass_position"
    by code_simp
  moreover have "get_valid_moves pass_position = Inr []"
    by code_simp
  moreover have "is_game_over pass_position = Inr (False, pass_position)"
    by code_simp
  moreover have "ply always_first 0 pass_position = Inr (0, switch_player pass_position)"
    by code_simp
  moreover have "current_player pass_position = BLACK"
    by (simp add: pass_position_def)
  moreover have "current_player (switch_player pass_position) = WHITE"
    by (simp add: pass_position_def switch_player_def other_player_def)
  ultimately show ?thesis by blast
qed

end
